theory Spec2Isabelle
  imports Main "HOL-Library.AList"
begin

section \<open>Data model of the Scheduler\<close>

text \<open>
  Modelled from the spec: the enumeration \<open>TimeScale\<close>. Its declaration
  (PsyNeuLink/Globals/TimeScale.py) is not among the sources; the spec and the source of
  the Scheduler name the five scales LIFE, RUN, TRIAL, PASS and TIME_STEP. The list
  \<open>TimeScales\<close> stands for the iteration \<open>for ts in TimeScale\<close>.
\<close>

datatype TimeScale = TIME_STEP | PASS | TRIAL | RUN | LIFE

definition TimeScales :: "TimeScale list" where
  "TimeScales = [TIME_STEP, PASS, TRIAL, RUN, LIFE]"

text \<open>
  The exceptions the Scheduler can end with. \<open>SchedulerError\<close> is the class of the
  source; \<open>KeyError\<close> is Python's error of a dictionary lookup at a missing key;
  \<open>AttributeError\<close> is the error of calling \<open>is_satisfied\<close> on \<open>None\<close>;
  \<open>NotAcyclicError\<close> is the error of the topological sort on a graph with a cycle;
  \<open>ConditionError\<close> is an error raised by the evaluation of a Condition.
\<close>

datatype error = SchedulerError | KeyError | AttributeError | NotAcyclicError | ConditionError

text \<open>
  A Python dictionary keyed by nodes is an association list in insertion order:
  \<open>map_of d k\<close> is the lookup \<open>d[k]\<close> (\<open>None\<close> for a missing key), \<open>AList.update k v d\<close>
  the assignment \<open>d[k] = v\<close>, and \<open>map fst d\<close> the keys that a loop over \<open>d\<close> visits.
  A dictionary with one entry for every member of \<open>TimeScale\<close> is a function.
\<close>

type_synonym ('k, 'v) dict = "('k \<times> 'v) list"

text \<open>The dictionary comprehension \<open>{k: v for k in ks}\<close>.\<close>

definition dict_from_keys :: "'k list \<Rightarrow> 'v \<Rightarrow> ('k, 'v) dict" where
  "dict_from_keys ks v = fold (\<lambda>k d. AList.update k v d) ks []"

text \<open>
  The fields of a Scheduler object that \<open>run\<close> reads and writes. A Python set that the
  code iterates over (a layer of the consideration queue) is a list, whose order stands
  for the iteration order of that set; a set that is only tested for membership and
  emptiness (a time step) is a HOL set.
\<close>

record 'n scheduler =
  nodes :: "'n list"
  consideration_queue :: "'n list list"
  execution_list :: "'n set list"
  times :: "TimeScale \<Rightarrow> TimeScale \<Rightarrow> int"
  counts_total :: "TimeScale \<Rightarrow> ('n, int) dict"
  counts_useable :: "('n, ('n, int) dict) dict"

text \<open>The read \<open>counts_useable[a][b]\<close>, \<open>None\<close> where a key is missing.\<close>

definition useable :: "'n scheduler \<Rightarrow> 'n \<Rightarrow> 'n \<Rightarrow> int option" where
  "useable s a b =
     (case map_of (counts_useable s) a of None \<Rightarrow> None | Some row \<Rightarrow> map_of row b)"

text \<open>The read \<open>counts_total[ts][n]\<close>, \<open>None\<close> where the key is missing.\<close>

definition total :: "'n scheduler \<Rightarrow> TimeScale \<Rightarrow> 'n \<Rightarrow> int option" where
  "total s ts n = map_of (counts_total s ts) n"

text \<open>The dictionary \<open>{node: {n: 0 for n in self.nodes} for node in self.nodes}\<close>.\<close>

definition zero_useable :: "'n list \<Rightarrow> ('n, ('n, int) dict) dict" where
  "zero_useable ns = dict_from_keys ns (dict_from_keys ns 0)"

text \<open>\<open>Scheduler._init_counts\<close>.\<close>

definition init_counts :: "'n scheduler \<Rightarrow> 'n scheduler" where
  "init_counts s =
     s\<lparr>times := (\<lambda>p q. 0),
       counts_total :=
         fold (\<lambda>ts ct. ct(ts := dict_from_keys (nodes s) 0)) TimeScales (\<lambda>ts. []),
       counts_useable := zero_useable (nodes s)\<rparr>"

text \<open>\<open>Scheduler._reset_count\<close>: every key of \<open>count[time_scale]\<close> is set to 0.\<close>

definition reset_count ::
  "(TimeScale \<Rightarrow> ('n, int) dict) \<Rightarrow> TimeScale \<Rightarrow> (TimeScale \<Rightarrow> ('n, int) dict)" where
  "reset_count count time_scale =
     count(time_scale :=
       fold (\<lambda>c d. AList.update c 0 d) (map fst (count time_scale)) (count time_scale))"

text \<open>\<open>Scheduler._increment_time\<close>: \<open>times[ts][time_scale] += 1\<close> for every \<open>ts\<close>.\<close>

definition increment_time :: "TimeScale \<Rightarrow> 'n scheduler \<Rightarrow> 'n scheduler" where
  "increment_time time_scale s =
     s\<lparr>times :=
         fold (\<lambda>ts T. T(ts := (T ts)(time_scale := T ts time_scale + 1))) TimeScales (times s)\<rparr>"

text \<open>\<open>Scheduler._reset_time\<close>: \<open>times[time_scale][ts] = 0\<close> for every \<open>ts\<close>.\<close>

definition reset_time :: "TimeScale \<Rightarrow> 'n scheduler \<Rightarrow> 'n scheduler" where
  "reset_time time_scale s =
     s\<lparr>times :=
         fold (\<lambda>ts T. T(time_scale := (T time_scale)(ts := 0))) TimeScales (times s)\<rparr>"

subsection \<open>The update at a firing node\<close>

text \<open>
  The loop \<open>for ts in TimeScale: self.counts_total[ts][current_node] += 1\<close>; a node that
  is not a key of \<open>counts_total[ts]\<close> is a \<open>KeyError\<close>.
\<close>

fun incr_total ::
  "TimeScale list \<Rightarrow> 'n \<Rightarrow> (TimeScale \<Rightarrow> ('n, int) dict)
     \<Rightarrow> error + (TimeScale \<Rightarrow> ('n, int) dict)" where
  "incr_total [] current_node ct = Inr ct"
| "incr_total (ts # tss) current_node ct =
     (case map_of (ct ts) current_node of
        None \<Rightarrow> Inl KeyError
      | Some c \<Rightarrow> incr_total tss current_node (ct(ts := AList.update current_node (c + 1) (ct ts))))"

text \<open>
  The loop \<open>for n in self.counts_useable: self.counts_useable[current_node][n] += 1\<close>
  on the row of the firing node; a key missing from the row is a \<open>KeyError\<close>.
\<close>

fun incr_row :: "'n list \<Rightarrow> ('n, int) dict \<Rightarrow> error + ('n, int) dict" where
  "incr_row [] row = Inr row"
| "incr_row (n # ns) row =
     (case map_of row n of
        None \<Rightarrow> Inl KeyError
      | Some c \<Rightarrow> incr_row ns (AList.update n (c + 1) row))"

text \<open>
  The three iterations of \<open>run\<close> that follow the adding of \<open>current_node\<close> to the time step:
  \<open>counts_total[ts][current_node] += 1\<close> for every time scale,
  \<open>counts_useable[n][current_node] = 0\<close> for every key \<open>n\<close>, then
  \<open>counts_useable[current_node][n] += 1\<close> for every key \<open>n\<close>.
\<close>

definition fire :: "'n \<Rightarrow> 'n scheduler \<Rightarrow> error + 'n scheduler" where
  "fire current_node s =
     (case incr_total TimeScales current_node (counts_total s) of
        Inl e \<Rightarrow> Inl e
      | Inr ct \<Rightarrow>
          (let cu = map (\<lambda>(n, row). (n, AList.update current_node 0 row)) (counts_useable s)
           in case map fst cu of
                [] \<Rightarrow> Inr (s\<lparr>counts_total := ct, counts_useable := cu\<rparr>)
              | k # ks \<Rightarrow>
                  (case map_of cu current_node of
                     None \<Rightarrow> Inl KeyError
                   | Some row \<Rightarrow>
                       (case incr_row (k # ks) row of
                          Inl e \<Rightarrow> Inl e
                        | Inr row' \<Rightarrow>
                            Inr (s\<lparr>counts_total := ct,
                                   counts_useable := AList.update current_node row' cu\<rparr>)))))"

section \<open>Conditions\<close>

text \<open>
  A Condition is an object with a method \<open>is_satisfied\<close> that reads the Scheduler it is
  bound to; here it is a function of the Scheduler's state that returns the truth value or
  the error its evaluation raised. The owner and the Scheduler that the source injects
  into a Condition at registration are the arguments of these functions.
\<close>

type_synonym 'n condition = "'n scheduler \<Rightarrow> error + bool"

text \<open>
  Modelled from the spec: the Condition classes (PsyNeuLink/scheduling/condition.py is
  not among the sources). \<open>Always\<close> is always satisfied; \<open>AllHaveRun\<close> is satisfied once
  every node of the Scheduler has fired at least once in the current TRIAL;
  \<open>EveryNCalls dependency n\<close>, owned by \<open>owner\<close>, is satisfied when
  \<open>counts_useable[dependency][owner] >= n\<close>; \<open>AtPass n\<close> and \<open>AfterNPasses n\<close> read the
  number of passes of the current TRIAL from the Time Registry.
\<close>

definition Always :: "'n condition" where
  "Always s = Inr True"

definition AllHaveRun :: "'n condition" where
  "AllHaveRun s =
     (if \<exists>n \<in> set (nodes s). total s TRIAL n = None then Inl KeyError
      else Inr (\<forall>n \<in> set (nodes s). case total s TRIAL n of
                                         None \<Rightarrow> False
                                       | Some c \<Rightarrow> 1 \<le> c))"

definition EveryNCalls :: "'n \<Rightarrow> int \<Rightarrow> 'n \<Rightarrow> 'n condition" where
  "EveryNCalls dependency n owner s =
     (case useable s dependency owner of
        None \<Rightarrow> Inl KeyError
      | Some c \<Rightarrow> Inr (n \<le> c))"

definition AtPass :: "int \<Rightarrow> 'n condition" where
  "AtPass n s = Inr (times s TRIAL PASS = n)"

definition AfterNPasses :: "int \<Rightarrow> 'n condition" where
  "AfterNPasses n s = Inr (n \<le> times s TRIAL PASS)"

section \<open>Validation\<close>

text \<open>
  \<open>Scheduler._validate_condition_set\<close>: every node without a Condition gets \<open>Always\<close>.
  The ConditionSet is the dictionary \<open>condition_set.conditions\<close>.
\<close>

definition validate_condition_set ::
  "'n list \<Rightarrow> ('n \<rightharpoonup> 'n condition) \<Rightarrow> ('n \<rightharpoonup> 'n condition)" where
  "validate_condition_set ns condition_set =
     fold (\<lambda>node cs. case cs node of None \<Rightarrow> cs(node \<mapsto> Always) | Some c \<Rightarrow> cs)
       ns condition_set"

text \<open>
  The argument \<open>termination_conds\<close> of \<open>run\<close>: \<open>None\<close>, or a dictionary from time scales
  to a Condition or \<open>None\<close>. A key may be absent from the dictionary.
\<close>

type_synonym 'n termination_conds = "TimeScale \<rightharpoonup> 'n condition option"

text \<open>
  \<open>Scheduler._validate_termination\<close>: without a dictionary every time scale gets
  \<open>AllHaveRun\<close>; a key that is present with the value \<open>None\<close> raises \<open>SchedulerError\<close> when
  it is TRIAL. (The assignment of the back reference \<open>scheduler\<close> is the state argument
  of a Condition here.)
\<close>

definition validate_termination :: "'n termination_conds option \<Rightarrow> error + 'n termination_conds" where
  "validate_termination termination_conds =
     (let tcs = (case termination_conds of
                   None \<Rightarrow> (\<lambda>ts. Some (Some AllHaveRun))
                 | Some m \<Rightarrow> m)
      in if \<exists>tc \<in> set TimeScales.
              (case tcs tc of
                 None \<Rightarrow> False
               | Some None \<Rightarrow> tc \<in> set [TRIAL]
               | Some (Some c) \<Rightarrow> False)
         then Inl SchedulerError
         else Inr tcs)"

section \<open>The run method\<close>

text \<open>
  One pass of \<open>for current_node in cur_consideration_set\<close>. The state of the loop is the
  time step \<open>cur_time_step_exec\<close>, the flags \<open>execution_list_has_changed\<close> and
  \<open>cur_consideration_set_has_changed\<close>, and the Scheduler. A node without an entry in
  the ConditionSet is a \<open>KeyError\<close>.
\<close>

fun scan ::
  "('n \<rightharpoonup> 'n condition) \<Rightarrow> 'n list \<Rightarrow> 'n set \<Rightarrow> bool \<Rightarrow> bool \<Rightarrow> 'n scheduler
     \<Rightarrow> error + ('n set \<times> bool \<times> bool \<times> 'n scheduler)" where
  "scan conds [] cur_exec elhc cshc s = Inr (cur_exec, elhc, cshc, s)"
| "scan conds (current_node # rest) cur_exec elhc cshc s =
     (if current_node \<notin> cur_exec then
        (case conds current_node of
           None \<Rightarrow> Inl KeyError
         | Some c \<Rightarrow>
             (case c s of
                Inl e \<Rightarrow> Inl e
              | Inr sat \<Rightarrow>
                  if sat then
                    (case fire current_node s of
                       Inl e \<Rightarrow> Inl e
                     | Inr s' \<Rightarrow> scan conds rest (insert current_node cur_exec) True True s')
                  else scan conds rest cur_exec elhc cshc s))
      else scan conds rest cur_exec elhc cshc s)"

text \<open>
  The do-while loop on \<open>cur_consideration_set_has_changed\<close>: the layer is scanned again
  until a scan adds no node.
\<close>

function fixpoint ::
  "('n \<rightharpoonup> 'n condition) \<Rightarrow> 'n list \<Rightarrow> 'n set \<Rightarrow> bool \<Rightarrow> 'n scheduler
     \<Rightarrow> error + ('n set \<times> bool \<times> 'n scheduler)" where
  "fixpoint conds layer cur_exec elhc s =
     (case scan conds layer cur_exec elhc False s of
        Inl e \<Rightarrow> Inl e
      | Inr (cur_exec', elhc', cshc, s') \<Rightarrow>
          if \<not> cshc then Inr (cur_exec', elhc', s')
          else fixpoint conds layer cur_exec' elhc' s')"
  by pat_completeness auto
termination
proof (relation "measure (\<lambda>(conds, layer, cur_exec, elhc, s). card (set layer - cur_exec))")
  show "wf (measure (\<lambda>(conds, layer, cur_exec, elhc, s). card (set layer - cur_exec)))"
    by simp
next
  fix conds :: "'n \<rightharpoonup> 'n condition" and layer cur_exec elhc s x2 cur_exec' y elhc' ya cshc s'
  assume sc: "scan conds layer cur_exec elhc False s = Inr x2"
    and x2: "(cur_exec', y) = x2" "(elhc', ya) = y" "(cshc, s') = ya"
    and ch: "\<not> \<not> cshc"
  have grows: "scan conds ns ex e c t = Inr (ex', e', c', t')
      \<Longrightarrow> ex \<subseteq> ex' \<and> ex' \<subseteq> ex \<union> set ns \<and> (c' \<longrightarrow> c \<or> ex \<noteq> ex')"
    for ns ex e c t ex' e' c' t'
  proof (induction ns arbitrary: ex e c t)
    case Nil
    then show ?case by simp
  next
    case (Cons n ns)
    show ?case
    proof (cases "n \<in> ex")
      case True
      with Cons.prems have "scan conds ns ex e c t = Inr (ex', e', c', t')" by simp
      from Cons.IH [OF this] show ?thesis by auto
    next
      case False
      with Cons.prems obtain cnd sat where cnd: "conds n = Some cnd" "cnd t = Inr sat"
        by (auto split: option.splits sum.splits)
      show ?thesis
      proof (cases sat)
        case True
        with False cnd Cons.prems obtain t1 where
          "scan conds ns (insert n ex) True True t1 = Inr (ex', e', c', t')"
          by (auto split: sum.splits)
        from Cons.IH [OF this] False show ?thesis by auto
      next
        case sat: False
        with False cnd Cons.prems have "scan conds ns ex e c t = Inr (ex', e', c', t')"
          by simp
        from Cons.IH [OF this] show ?thesis by auto
      qed
    qed
  qed
  from sc x2 have "scan conds layer cur_exec elhc False s = Inr (cur_exec', elhc', cshc, s')"
    by auto
  from grows [OF this] ch
  have sub: "cur_exec \<subseteq> cur_exec'" "cur_exec' \<subseteq> cur_exec \<union> set layer" "cur_exec \<noteq> cur_exec'"
    by auto
  then have "set layer - cur_exec' \<subset> set layer - cur_exec" by auto
  then have "card (set layer - cur_exec') < card (set layer - cur_exec)"
    by (intro psubset_card_mono) auto
  then show "((conds, layer, cur_exec', elhc', s'), (conds, layer, cur_exec, elhc, s))
      \<in> measure (\<lambda>(conds, layer, cur_exec, elhc, s). card (set layer - cur_exec))"
    by simp
qed

text \<open>
  The loop over the layers of the consideration queue, from the layer at
  \<open>cur_index_consideration_queue\<close> on: it ends at the end of the queue or when the
  termination Condition of TRIAL is satisfied, and a time step that is not empty is
  appended to \<open>execution_list\<close> and yielded, and TIME_STEP is incremented. The first
  component of the result is the list of the time steps yielded, in order.
\<close>

fun layer_loop ::
  "('n \<rightharpoonup> 'n condition) \<Rightarrow> 'n condition \<Rightarrow> 'n list list \<Rightarrow> bool \<Rightarrow> 'n scheduler
     \<Rightarrow> 'n set list \<times> (error + bool \<times> 'n scheduler)" where
  "layer_loop conds trial_cond [] elhc s = ([], Inr (elhc, s))"
| "layer_loop conds trial_cond (cur_consideration_set # rest) elhc s =
     (case trial_cond s of
        Inl e \<Rightarrow> ([], Inl e)
      | Inr stop \<Rightarrow>
          if stop then ([], Inr (elhc, s))
          else
            (case fixpoint conds cur_consideration_set {} elhc s of
               Inl e \<Rightarrow> ([], Inl e)
             | Inr (cur_time_step_exec, elhc', s') \<Rightarrow>
                 if cur_time_step_exec \<noteq> {} then
                   (case layer_loop conds trial_cond rest elhc'
                           (increment_time TIME_STEP
                              (s'\<lparr>execution_list := execution_list s' @ [cur_time_step_exec]\<rparr>)) of
                      (ys, r) \<Rightarrow> (cur_time_step_exec # ys, r))
                 else layer_loop conds trial_cond rest elhc' s'))"

text \<open>
  The body of the trial loop, one pass: the counters of PASS are reset, the flag
  \<open>execution_list_has_changed\<close> is set to false, the layers are walked, an empty time
  step is appended and yielded if the flag is still false, and PASS is incremented.
\<close>

definition run_pass ::
  "('n \<rightharpoonup> 'n condition) \<Rightarrow> 'n condition \<Rightarrow> 'n scheduler
     \<Rightarrow> 'n set list \<times> (error + 'n scheduler)" where
  "run_pass conds trial_cond s =
     (let s1 = reset_time PASS (s\<lparr>counts_total := reset_count (counts_total s) PASS\<rparr>)
      in case layer_loop conds trial_cond (consideration_queue s1) False s1 of
           (ys, Inl e) \<Rightarrow> (ys, Inl e)
         | (ys, Inr (execution_list_has_changed, s2)) \<Rightarrow>
             if \<not> execution_list_has_changed then
               (ys @ [{}],
                Inr (increment_time PASS
                       (increment_time TIME_STEP
                          (s2\<lparr>execution_list := execution_list s2 @ [{}]\<rparr>))))
             else (ys, Inr (increment_time PASS s2)))"

text \<open>
  The trial loop \<open>while not self.termination_conds[TimeScale.TRIAL].is_satisfied()\<close>.
  The loop need not end, so it has fuel, one unit for each evaluation of the loop
  condition; \<open>None\<close> says that the fuel did not suffice.
\<close>

fun trial_loop ::
  "nat \<Rightarrow> ('n \<rightharpoonup> 'n condition) \<Rightarrow> 'n condition \<Rightarrow> 'n scheduler
     \<Rightarrow> ('n set list \<times> (error + 'n scheduler)) option" where
  "trial_loop 0 conds trial_cond s = None"
| "trial_loop (Suc fuel) conds trial_cond s =
     (case trial_cond s of
        Inl e \<Rightarrow> Some ([], Inl e)
      | Inr stop \<Rightarrow>
          if stop then Some ([], Inr s)
          else
            (case run_pass conds trial_cond s of
               (ys, Inl e) \<Rightarrow> Some (ys, Inl e)
             | (ys, Inr s') \<Rightarrow>
                 (case trial_loop fuel conds trial_cond s' of
                    None \<Rightarrow> None
                  | Some (ys', r) \<Rightarrow> Some (ys @ ys', r))))"

text \<open>
  \<open>Scheduler.run\<close>, driven until the generator is exhausted or raises: the list of the
  time steps yielded, with the error raised or the Scheduler at the end. The ConditionSet
  and the termination Conditions are arguments. (The local function
  \<open>has_reached_termination\<close> of the source is never called.)
\<close>

definition run ::
  "nat \<Rightarrow> ('n \<rightharpoonup> 'n condition) \<Rightarrow> 'n termination_conds option \<Rightarrow> 'n scheduler
     \<Rightarrow> ('n set list \<times> (error + 'n scheduler)) option" where
  "run fuel condition_set termination_conds s =
     (let conds = validate_condition_set (nodes s) condition_set
      in case validate_termination termination_conds of
           Inl e \<Rightarrow> Some ([], Inl e)
         | Inr tcs \<Rightarrow>
             (let s1 = reset_time TRIAL
                         (s\<lparr>counts_useable := zero_useable (nodes s),
                            counts_total := reset_count (counts_total s) TRIAL\<rparr>)
              in case tcs TRIAL of
                   None \<Rightarrow> Some ([], Inl KeyError)
                 | Some None \<Rightarrow> Some ([], Inl AttributeError)
                 | Some (Some trial_cond) \<Rightarrow>
                     (case trial_loop fuel conds trial_cond s1 of
                        None \<Rightarrow> None
                      | Some (ys, Inl e) \<Rightarrow> Some (ys, Inl e)
                      | Some (ys, Inr s2) \<Rightarrow> Some (ys, Inr (increment_time TRIAL s2)))))"

section \<open>Construction\<close>

text \<open>
  A dependency graph is a dictionary from a node to the set of its predecessors (the
  nodes that project to it); the set of predecessors is a list without an order of its
  own. There is an edge from \<open>u\<close> to \<open>v\<close> when \<open>u\<close> is a predecessor of \<open>v\<close>.
\<close>

type_synonym 'n graph = "('n, 'n list) dict"

definition edges :: "'n graph \<Rightarrow> ('n \<times> 'n) set" where
  "edges g = {(u, v). \<exists>ds. (v, ds) \<in> set g \<and> u \<in> set ds}"

definition graph_nodes :: "'n graph \<Rightarrow> 'n set" where
  "graph_nodes g = fst ` set g \<union> (\<Union>(v, ds) \<in> set g. set ds)"

text \<open>
  Modelled from the spec: the topological sort \<open>toposort\<close> that
  \<open>_init_consideration_queue_from_system\<close> calls. It is imported from a package that is
  not among the sources. The spec describes it as Kahn-style layering: repeatedly peel
  off the set of nodes whose unresolved predecessors are all already placed, and fail
  with a graph-is-not-acyclic error if the graph contains a cycle. A node that occurs
  only as a predecessor is a node without predecessors (\<open>complete_graph\<close>).
\<close>

definition complete_graph :: "'n graph \<Rightarrow> 'n graph" where
  "complete_graph data =
     data @ map (\<lambda>n. (n, []))
              (remdups (filter (\<lambda>n. n \<notin> fst ` set data) (concat (map snd data))))"

definition peel :: "'n graph \<Rightarrow> 'n list" where
  "peel data = map fst (filter (\<lambda>(item, dep). dep = []) data)"

definition remaining :: "'n list \<Rightarrow> 'n graph \<Rightarrow> 'n graph" where
  "remaining ordered data =
     map (\<lambda>(item, dep). (item, filter (\<lambda>d. d \<notin> set ordered) dep))
         (filter (\<lambda>(item, dep). item \<notin> set ordered) data)"

function layering :: "'n graph \<Rightarrow> error + 'n list list" where
  "layering data =
     (if data = [] then Inr []
      else if peel data = [] then Inl NotAcyclicError
      else (case layering (remaining (peel data) data) of
              Inl e \<Rightarrow> Inl e
            | Inr layers \<Rightarrow> Inr (peel data # layers)))"
  by pat_completeness auto
termination
proof (relation "measure length")
  show "wf (measure length)" by simp
next
  fix data :: "'n graph"
  assume "data \<noteq> []" and ne: "peel data \<noteq> []"
  from ne obtain item where "item \<in> set (peel data)"
    by (cases "peel data") auto
  then obtain dep where mem: "(item, dep) \<in> set data" and "item \<in> set (peel data)"
    by (auto simp: peel_def)
  then have "\<not> (\<lambda>(item, dep). item \<notin> set (peel data)) (item, dep)"
    by simp
  with mem have "length (filter (\<lambda>(item, dep). item \<notin> set (peel data)) data) < length data"
    by (rule length_filter_less)
  then show "(remaining (peel data) data, data) \<in> measure length"
    by (simp add: remaining_def)
qed

definition toposort :: "'n graph \<Rightarrow> error + 'n list list" where
  "toposort data = layering (complete_graph data)"

text \<open>Every predecessor in the graph has an entry of its own.\<close>

definition closed_graph :: "'n graph \<Rightarrow> bool" where
  "closed_graph g \<longleftrightarrow> (\<forall>(v, ds) \<in> set g. set ds \<subseteq> fst ` set g)"

text \<open>The index of the first layer of a queue that contains a node.\<close>

fun layer_index :: "'n list list \<Rightarrow> 'n \<Rightarrow> nat option" where
  "layer_index [] n = None"
| "layer_index (layer # layers) n =
     (if n \<in> set layer then Some 0 else map_option Suc (layer_index layers n))"

text \<open>
  The System that a Scheduler is built from: its \<open>executionList\<close> and its
  \<open>executionGraph\<close>.
\<close>

record 'n system =
  executionList :: "'n list"
  executionGraph :: "'n graph"

text \<open>
  \<open>Scheduler._init_consideration_queue_from_system\<close>: every set that the topological
  sort returns is copied, element by element, into a new set; an error of the sort
  leaves the method before \<open>consideration_queue\<close> is assigned.
\<close>

definition init_consideration_queue_from_system :: "'n system \<Rightarrow> error + 'n list list" where
  "init_consideration_queue_from_system sys =
     (case toposort (executionGraph sys) of
        Inl e \<Rightarrow> Inl e
      | Inr layers \<Rightarrow>
          Inr (map (\<lambda>dependency_set. fold (\<lambda>d new_set. List.insert d new_set) dependency_set [])
                   layers))"

text \<open>
  \<open>Scheduler.__init__\<close> with the arguments \<open>system\<close>, \<open>nodes\<close> and \<open>toposort_ordering\<close>
  (the ConditionSet is an argument of \<open>run\<close> here).
\<close>

definition Scheduler_init ::
  "'n system option \<Rightarrow> 'n list option \<Rightarrow> 'n list list option \<Rightarrow> error + 'n scheduler" where
  "Scheduler_init sys_arg nodes_arg toposort_ordering =
     (let s0 = \<lparr>nodes = [], consideration_queue = [], execution_list = [],
                times = (\<lambda>p q. 0), counts_total = (\<lambda>ts. []), counts_useable = []\<rparr>
      in case sys_arg of
           Some sys \<Rightarrow>
             (case init_consideration_queue_from_system sys of
                Inl e \<Rightarrow> Inl e
              | Inr q \<Rightarrow>
                  Inr (init_counts (s0\<lparr>nodes := executionList sys, consideration_queue := q\<rparr>)))
         | None \<Rightarrow>
             (case nodes_arg of
                Some ns \<Rightarrow>
                  (case toposort_ordering of
                     None \<Rightarrow> Inl SchedulerError
                   | Some q \<Rightarrow>
                       Inr (init_counts (s0\<lparr>nodes := ns, consideration_queue := q\<rparr>)))
              | None \<Rightarrow> Inl SchedulerError))"

text \<open>
  What a caller that drains the generator sees: the time steps yielded, and the Scheduler
  once the generator is exhausted without an error.
\<close>

definition yielded :: "('n set list \<times> (error + 'n scheduler)) option \<Rightarrow> 'n set list option" where
  "yielded r = map_option fst r"

definition final_state :: "('n set list \<times> (error + 'n scheduler)) option \<Rightarrow> 'n scheduler option" where
  "final_state r = (case r of Some (ys, Inr s) \<Rightarrow> Some s | Some (ys, Inl e) \<Rightarrow> None | None \<Rightarrow> None)"

text \<open>
  A further call of \<open>run\<close> on the Scheduler that an earlier, completed call left behind.
\<close>

definition run_after ::
  "('n set list \<times> (error + 'n scheduler)) option \<Rightarrow> nat \<Rightarrow> ('n \<rightharpoonup> 'n condition)
     \<Rightarrow> 'n termination_conds option \<Rightarrow> ('n set list \<times> (error + 'n scheduler)) option" where
  "run_after r fuel condition_set termination_conds =
     (case final_state r of
        None \<Rightarrow> None
      | Some s \<Rightarrow> run fuel condition_set termination_conds s)"

section \<open>Counting the firings of a run\<close>

text \<open>The number of the time steps \<open>ys\<close> in which the node \<open>n\<close> fired.\<close>

definition fired_count :: "'n \<Rightarrow> 'n set list \<Rightarrow> int" where
  "fired_count n ys = int (length (filter (\<lambda>y. n \<in> y) ys))"

text \<open>What one scan of a layer does to the Scheduler.\<close>

definition fired_step ::
  "'n scheduler \<Rightarrow> 'n set \<Rightarrow> 'n scheduler \<Rightarrow> bool" where
  "fired_step s new s' \<longleftrightarrow>
     nodes s' = nodes s \<and> consideration_queue s' = consideration_queue s \<and>
     execution_list s' = execution_list s \<and> times s' = times s \<and>
     (\<forall>ts m. total s' ts m =
        (if m \<in> new then map_option (\<lambda>c. c + 1) (total s ts m) else total s ts m))"

text \<open>What a stretch of a run that yields the time steps \<open>ys\<close> does to the Scheduler.\<close>

definition yields_step ::
  "'n scheduler \<Rightarrow> 'n set list \<Rightarrow> 'n scheduler \<Rightarrow> bool" where
  "yields_step s ys s' \<longleftrightarrow>
     nodes s' = nodes s \<and> consideration_queue s' = consideration_queue s \<and>
     execution_list s' = execution_list s @ ys \<and>
     (\<forall>p. times s' p TIME_STEP = times s p TIME_STEP + int (length ys)) \<and>
     (\<forall>p q. q \<noteq> TIME_STEP \<longrightarrow> times s' p q = times s p q) \<and>
     (\<forall>ts m. total s' ts m = map_option (\<lambda>c. c + fired_count m ys) (total s ts m))"

text \<open>A pass differs from such a stretch in the counters of PASS, which it resets.\<close>

definition pass_step ::
  "'n scheduler \<Rightarrow> 'n set list \<Rightarrow> 'n scheduler \<Rightarrow> bool" where
  "pass_step s ys s' \<longleftrightarrow>
     nodes s' = nodes s \<and> consideration_queue s' = consideration_queue s \<and>
     execution_list s' = execution_list s @ ys \<and>
     (\<forall>p. p \<noteq> PASS \<longrightarrow> times s' p TIME_STEP = times s p TIME_STEP + int (length ys)) \<and>
     (\<forall>ts m. ts \<noteq> PASS \<longrightarrow>
        total s' ts m = map_option (\<lambda>c. c + fired_count m ys) (total s ts m))"


section \<open>Example Schedulers\<close>

datatype node = A | B | C

text \<open>
  The linear chain of the documentation: A projects to B, B projects to C, B runs every
  second call of A, C every third call of B, and A has no Condition.
\<close>

definition chain_system :: "node system" where
  "chain_system = \<lparr>executionList = [A, B, C], executionGraph = [(A, []), (B, [A]), (C, [B])]\<rparr>"

definition sched_chain :: "node scheduler" where
  "sched_chain =
     init_counts \<lparr>nodes = [A, B, C], consideration_queue = [[A], [B], [C]],
                  execution_list = [], times = (\<lambda>p q. 0), counts_total = (\<lambda>ts. []),
                  counts_useable = []\<rparr>"

definition conds_chain :: "node \<rightharpoonup> node condition" where
  "conds_chain = [B \<mapsto> EveryNCalls A 2 B, C \<mapsto> EveryNCalls B 3 C]"

text \<open>
  A Scheduler of the single node A that runs at pass 0 only, with a trial that ends
  after two passes.
\<close>

definition sched_single :: "node scheduler" where
  "sched_single =
     init_counts \<lparr>nodes = [A], consideration_queue = [[A]],
                  execution_list = [], times = (\<lambda>p q. 0), counts_total = (\<lambda>ts. []),
                  counts_useable = []\<rparr>"

definition conds_single :: "node \<rightharpoonup> node condition" where
  "conds_single = [A \<mapsto> AtPass 0]"

definition two_passes :: "node termination_conds" where
  "two_passes = (\<lambda>ts. Some None)(TRIAL := Some (Some (AfterNPasses 2)))"



text \<open>A graph with a cycle: A depends on B and B depends on A.\<close>

definition cyclic_system :: "node system" where
  "cyclic_system = \<lparr>executionList = [A, B], executionGraph = [(A, [B]), (B, [A])]\<rparr>"

section \<open>The Time Registry and the counts\<close>

declare fixpoint.simps [simp del]
declare layering.simps [simp del]

lemma in_TimeScales: "ts \<in> set TimeScales"
  by (cases ts) (simp_all add: TimeScales_def)

lemma distinct_TimeScales: "distinct TimeScales"
  by (simp add: TimeScales_def)

lemma times_increment_time:
  "times (increment_time k s) p q = times s p q + (if q = k then 1 else 0)"
  by (cases p; cases q; cases k) (simp_all add: increment_time_def TimeScales_def)

lemma times_reset_time:
  "times (reset_time k s) p q = (if p = k then 0 else times s p q)"
  by (cases p; cases q; cases k) (simp_all add: reset_time_def TimeScales_def)

lemma increment_time_fields [simp]:
  "nodes (increment_time k s) = nodes s"
  "consideration_queue (increment_time k s) = consideration_queue s"
  "execution_list (increment_time k s) = execution_list s"
  "counts_total (increment_time k s) = counts_total s"
  "counts_useable (increment_time k s) = counts_useable s"
  by (simp_all add: increment_time_def)

lemma reset_time_fields [simp]:
  "nodes (reset_time k s) = nodes s"
  "consideration_queue (reset_time k s) = consideration_queue s"
  "execution_list (reset_time k s) = execution_list s"
  "counts_total (reset_time k s) = counts_total s"
  "counts_useable (reset_time k s) = counts_useable s"
  by (simp_all add: reset_time_def)

lemma map_of_fold_update:
  "map_of (fold (\<lambda>k d. AList.update k v d) ks d) k =
     (if k \<in> set ks then Some v else map_of d k)"
  by (induction ks arbitrary: d) (auto simp: update_conv')




lemma map_of_reset_count:
  "map_of (reset_count count k ts) n =
     (if ts = k then map_option (\<lambda>v. 0) (map_of (count ts) n) else map_of (count ts) n)"
proof -
  have "(n \<in> set (map fst (count k))) = (map_of (count k) n \<noteq> None)"
    by (simp add: map_of_eq_None_iff)
  then show ?thesis
    by (cases "map_of (count k) n") (auto simp: reset_count_def map_of_fold_update)
qed

lemma incr_total_lookup:
  "incr_total tss n ct = Inr ct' \<Longrightarrow> distinct tss \<Longrightarrow>
     map_of (ct' ts) m =
       (if ts \<in> set tss \<and> m = n then map_option (\<lambda>c. c + 1) (map_of (ct ts) n)
        else map_of (ct ts) m)"
proof (induction tss arbitrary: ct)
  case Nil
  then show ?case by simp
next
  case (Cons t tss)
  from Cons.prems obtain c where c: "map_of (ct t) n = Some c"
    and rec: "incr_total tss n (ct(t := AList.update n (c + 1) (ct t))) = Inr ct'"
    by (auto split: option.splits)
  from Cons.IH [OF rec] Cons.prems(2) c show ?case
    by (auto simp: update_conv')
qed

lemma incr_total_defined:
  "incr_total tss n ct = Inr ct' \<Longrightarrow> ts \<in> set tss \<Longrightarrow> map_of (ct ts) n \<noteq> None"
proof (induction tss arbitrary: ct)
  case Nil
  then show ?case by simp
next
  case (Cons t tss)
  from Cons.prems obtain c where c: "map_of (ct t) n = Some c"
    and rec: "incr_total tss n (ct(t := AList.update n (c + 1) (ct t))) = Inr ct'"
    by (auto split: option.splits)
  show ?case
  proof (cases "ts = t")
    case True
    with c show ?thesis by simp
  next
    case False
    with Cons.prems have "ts \<in> set tss" by simp
    from Cons.IH [OF rec this] False show ?thesis by simp
  qed
qed

lemma fire_fields:
  assumes "fire n s = Inr s'"
  shows "nodes s' = nodes s" "consideration_queue s' = consideration_queue s"
    "execution_list s' = execution_list s" "times s' = times s"
  using assms
  by (auto simp: fire_def Let_def split: sum.splits list.splits option.splits)

lemma fire_total:
  assumes "fire n s = Inr s'"
  shows "total s' ts m = (if m = n then map_option (\<lambda>c. c + 1) (total s ts n) else total s ts m)"
proof -
  from assms obtain ct where ct: "incr_total TimeScales n (counts_total s) = Inr ct"
    and "counts_total s' = ct"
    by (auto simp: fire_def Let_def split: sum.splits list.splits option.splits)
  with incr_total_lookup [OF ct distinct_TimeScales, of ts m] show ?thesis
    by (simp add: total_def in_TimeScales)
qed

lemma fire_total_defined:
  assumes "fire n s = Inr s'"
  shows "total s ts n \<noteq> None"
proof -
  from assms obtain ct where ct: "incr_total TimeScales n (counts_total s) = Inr ct"
    by (auto simp: fire_def Let_def split: sum.splits list.splits option.splits)
  from incr_total_defined [OF ct in_TimeScales] show ?thesis
    by (simp add: total_def)
qed


lemma incr_row_lookup:
  "incr_row ks row = Inr row' \<Longrightarrow> distinct ks \<Longrightarrow>
     map_of row' b =
       (if b \<in> set ks then map_option (\<lambda>c. c + 1) (map_of row b) else map_of row b)"
proof (induction ks arbitrary: row)
  case Nil
  then show ?case by simp
next
  case (Cons k ks)
  from Cons.prems obtain c where c: "map_of row k = Some c"
    and rec: "incr_row ks (AList.update k (c + 1) row) = Inr row'"
    by (auto split: option.splits)
  from Cons.IH [OF rec] Cons.prems(2) c show ?case
    by (auto simp: update_conv')
qed

lemma incr_row_defined:
  "incr_row ks row = Inr row' \<Longrightarrow> b \<in> set ks \<Longrightarrow> map_of row b \<noteq> None"
proof (induction ks arbitrary: row)
  case Nil
  then show ?case by simp
next
  case (Cons k ks)
  from Cons.prems obtain c where c: "map_of row k = Some c"
    and rec: "incr_row ks (AList.update k (c + 1) row) = Inr row'"
    by (auto split: option.splits)
  show ?case
  proof (cases "b = k")
    case True
    with c show ?thesis by simp
  next
    case False
    with Cons.prems have "b \<in> set ks" by simp
    from Cons.IH [OF rec this] False show ?thesis by (simp add: update_conv')
  qed
qed

lemma fire_useable:
  assumes f: "fire n s = Inr s'"
    and d: "distinct (map fst (counts_useable s))"
    and n: "n \<in> fst ` set (counts_useable s)"
  shows "a \<in> fst ` set (counts_useable s) \<Longrightarrow> a \<noteq> n \<Longrightarrow> useable s' a n = Some 0"
    and "useable s' n n = Some 1"
    and "b \<in> fst ` set (counts_useable s) \<Longrightarrow> b \<noteq> n \<Longrightarrow>
           \<exists>c. useable s n b = Some c \<and> useable s' n b = Some (c + 1)"
    and "a \<noteq> n \<Longrightarrow> b \<noteq> n \<Longrightarrow> useable s' a b = useable s a b"
proof -
  define cu where "cu = map (\<lambda>(k, row). (k, AList.update n 0 row)) (counts_useable s)"
  have keys: "map fst cu = map fst (counts_useable s)"
    by (simp add: cu_def case_prod_unfold comp_def)
  from n have ne: "map fst cu \<noteq> []"
    by (auto simp: keys)
  have look: "map_of cu x = map_option (AList.update n 0) (map_of (counts_useable s) x)" for x
    by (simp add: cu_def map_of_map)
  from n obtain rown where rown: "map_of (counts_useable s) n = Some rown"
    by (cases "map_of (counts_useable s) n") (auto simp: map_of_eq_None_iff)
  from f ne rown obtain row' where
    inc: "incr_row (map fst cu) (AList.update n 0 rown) = Inr row'"
    and s': "counts_useable s' = AList.update n row' cu"
    by (cases "map fst cu")
       (auto simp: fire_def Let_def cu_def [symmetric] look split: sum.splits)
  from d have dk: "distinct (map fst cu)" by (simp add: keys)
  note r = incr_row_lookup [OF inc dk]
  show "useable s' n n = Some 1"
    using n r [of n] by (simp add: useable_def s' update_conv' keys)
  {
    assume a: "a \<in> fst ` set (counts_useable s)" "a \<noteq> n"
    then obtain rowa where "map_of (counts_useable s) a = Some rowa"
      by (cases "map_of (counts_useable s) a") (auto simp: map_of_eq_None_iff)
    with a show "useable s' a n = Some 0"
      by (simp add: useable_def s' update_conv' look)
  }
  {
    assume b: "b \<in> fst ` set (counts_useable s)" "b \<noteq> n"
    then have "b \<in> set (map fst cu)" by (simp add: keys)
    from incr_row_defined [OF inc this] b obtain c where c: "map_of rown b = Some c"
      by (auto simp: update_conv')
    with b r [of b] rown
    show "\<exists>c. useable s n b = Some c \<and> useable s' n b = Some (c + 1)"
      by (simp add: useable_def s' update_conv' keys)
  }
  {
    assume "a \<noteq> n" "b \<noteq> n"
    then show "useable s' a b = useable s a b"
      by (cases "map_of (counts_useable s) a")
         (simp_all add: useable_def s' update_conv' look)
  }
qed

section \<open>Invariants of run, loop by loop\<close>

lemma fired_count_simps [simp]:
  "fired_count n [] = 0"
  "fired_count n (y # ys) = (if n \<in> y then 1 else 0) + fired_count n ys"
  "fired_count n (ys @ zs) = fired_count n ys + fired_count n zs"
  by (simp_all add: fired_count_def)

lemma map_option_add:
  "map_option (\<lambda>c. c + (k::int)) (map_option (\<lambda>c. c + j) x) = map_option (\<lambda>c. c + (j + k)) x"
  by (cases x) simp_all

lemma map_option_add0 [simp]: "map_option (\<lambda>c. c) x = x"
  by (cases x) simp_all

lemma scan_props:
  "scan conds ns ex e c s = Inr (ex', e', c', s') \<Longrightarrow>
     ex \<subseteq> ex' \<and> e' = (e \<or> ex' \<noteq> ex) \<and> c' = (c \<or> ex' \<noteq> ex) \<and> fired_step s (ex' - ex) s'"
proof (induction ns arbitrary: ex e c s)
  case Nil
  then show ?case by (auto simp: fired_step_def)
next
  case (Cons n ns)
  show ?case
  proof (cases "n \<in> ex")
    case True
    with Cons.prems have "scan conds ns ex e c s = Inr (ex', e', c', s')" by simp
    from Cons.IH [OF this] show ?thesis .
  next
    case False
    with Cons.prems obtain cnd sat where cnd: "conds n = Some cnd" "cnd s = Inr sat"
      by (auto split: option.splits sum.splits)
    show ?thesis
    proof (cases sat)
      case True
      with False cnd Cons.prems obtain s1 where f: "fire n s = Inr s1"
        and rec: "scan conds ns (insert n ex) True True s1 = Inr (ex', e', c', s')"
        by (auto split: sum.splits)
      from Cons.IH [OF rec] have sub: "insert n ex \<subseteq> ex'" and e': "e'" and c': "c'"
        and st: "fired_step s1 (ex' - insert n ex) s'"
        by auto
      from sub False have neq: "ex' \<noteq> ex" by auto
      have "fired_step s (ex' - ex) s'"
        unfolding fired_step_def
      proof (intro conjI allI)
        fix ts m
        show "total s' ts m =
            (if m \<in> ex' - ex then map_option (\<lambda>c. c + 1) (total s ts m) else total s ts m)"
          using st fire_total [OF f, of ts m] sub False
          by (auto simp: fired_step_def)
      qed (use st fire_fields [OF f] in \<open>simp_all add: fired_step_def\<close>)
      with sub e' c' neq show ?thesis by auto
    next
      case sat: False
      with False cnd Cons.prems have "scan conds ns ex e c s = Inr (ex', e', c', s')"
        by simp
      from Cons.IH [OF this] show ?thesis .
    qed
  qed
qed

lemma fired_step_trans:
  assumes "fired_step s new1 s1" "fired_step s1 new2 s2" "new1 \<inter> new2 = {}"
  shows "fired_step s (new1 \<union> new2) s2"
  using assms by (auto simp: fired_step_def)

lemma fixpoint_props:
  "fixpoint conds layer ex e s = Inr (ex', e', s') \<Longrightarrow>
     ex \<subseteq> ex' \<and> e' = (e \<or> ex' \<noteq> ex) \<and> fired_step s (ex' - ex) s'"
proof (induction conds layer ex e s rule: fixpoint.induct)
  case (1 conds layer ex e s)
  from "1.prems" obtain ex1 e1 c1 s1 where
    sc: "scan conds layer ex e False s = Inr (ex1, e1, c1, s1)"
    by (subst (asm) fixpoint.simps) (auto split: sum.splits)
  from scan_props [OF sc] have p1: "ex \<subseteq> ex1" "e1 = (e \<or> ex1 \<noteq> ex)" "c1 = (ex1 \<noteq> ex)"
    "fired_step s (ex1 - ex) s1"
    by auto
  show ?case
  proof (cases c1)
    case False
    with "1.prems" sc have "ex' = ex1" "e' = e1" "s' = s1"
      by (subst (asm) fixpoint.simps, simp)+
    with p1 show ?thesis by simp
  next
    case True
    with "1.prems" sc have rec: "fixpoint conds layer ex1 e1 s1 = Inr (ex', e', s')"
      by (subst (asm) fixpoint.simps) simp
    from "1.IH" [OF sc refl refl refl _ rec] True
    have p2: "ex1 \<subseteq> ex'" "e' = (e1 \<or> ex' \<noteq> ex1)" "fired_step s1 (ex' - ex1) s'"
      by auto
    from p1 p2 have "(ex1 - ex) \<union> (ex' - ex1) = ex' - ex" by auto
    with fired_step_trans [OF p1(4) p2(3)] have "fired_step s (ex' - ex) s'" by auto
    with p1 p2 True show ?thesis by auto
  qed
qed


lemma yields_step_refl: "yields_step s [] s"
  by (simp add: yields_step_def)

lemma yields_step_trans:
  assumes "yields_step s ys s1" "yields_step s1 zs s2"
  shows "yields_step s (ys @ zs) s2"
  using assms by (simp add: yields_step_def map_option_add)

lemma yields_step_time_step:
  assumes "fired_step s ex s1"
  shows "yields_step s [ex]
           (increment_time TIME_STEP (s1\<lparr>execution_list := execution_list s1 @ [ex]\<rparr>))"
  using assms
  by (auto simp: yields_step_def fired_step_def times_increment_time total_def)

lemma layer_loop_props:
  "layer_loop conds tc q e s = (ys, Inr (e', s')) \<Longrightarrow>
     yields_step s ys s' \<and> {} \<notin> set ys \<and> e' = (e \<or> ys \<noteq> [])"
proof (induction q arbitrary: e s ys)
  case Nil
  then show ?case by (simp add: yields_step_refl)
next
  case (Cons layer rest)
  from Cons.prems obtain stop where stop: "tc s = Inr stop"
    by (auto split: sum.splits)
  show ?case
  proof (cases stop)
    case True
    with Cons.prems stop show ?thesis by (simp add: yields_step_refl)
  next
    case False
    with Cons.prems stop obtain ex e1 s1 where
      fp: "fixpoint conds layer {} e s = Inr (ex, e1, s1)"
      by (auto split: sum.splits)
    from fixpoint_props [OF fp] have e1: "e1 = (e \<or> ex \<noteq> {})" and st: "fired_step s ex s1"
      by auto
    show ?thesis
    proof (cases "ex = {}")
      case True
      with Cons.prems stop False fp
      have rec: "layer_loop conds tc rest e1 s1 = (ys, Inr (e', s'))"
        by simp
      from st True have "yields_step s [] s1"
        by (simp add: fired_step_def yields_step_def)
      from yields_step_trans [OF this] Cons.IH [OF rec] e1 True show ?thesis
        by auto
    next
      case ne: False
      with Cons.prems stop False fp obtain ys' where ys: "ys = ex # ys'"
        and rec: "layer_loop conds tc rest e1
            (increment_time TIME_STEP (s1\<lparr>execution_list := execution_list s1 @ [ex]\<rparr>)) =
            (ys', Inr (e', s'))"
        by (auto split: prod.splits)
      from yields_step_trans [OF yields_step_time_step [OF st]] Cons.IH [OF rec] e1 ne ys
      show ?thesis by auto
    qed
  qed
qed

lemma pass_step_refl: "pass_step s [] s"
  by (simp add: pass_step_def)

lemma pass_step_trans:
  assumes "pass_step s ys s1" "pass_step s1 zs s2"
  shows "pass_step s (ys @ zs) s2"
  using assms by (simp add: pass_step_def map_option_add)

lemma run_pass_props:
  assumes "run_pass conds tc s = (ys, Inr s')"
  shows "pass_step s ys s' \<and>
    (ys = [{}] \<or> ys \<noteq> [] \<and> {} \<notin> set ys) \<and>
    (\<forall>m. total s' PASS m = map_option (\<lambda>c. fired_count m ys) (total s PASS m)) \<and>
    (\<forall>q. times s' PASS q =
           (if q = TIME_STEP then int (length ys) else if q = PASS then 1 else 0))"
proof -
  define s1 where "s1 = reset_time PASS (s\<lparr>counts_total := reset_count (counts_total s) PASS\<rparr>)"
  from assms obtain ys0 e2 s2 where
    ll: "layer_loop conds tc (consideration_queue s1) False s1 = (ys0, Inr (e2, s2))"
    by (auto simp: run_pass_def s1_def [symmetric] Let_def split: prod.splits sum.splits)
  from layer_loop_props [OF ll] have st: "yields_step s1 ys0 s2" and ne: "{} \<notin> set ys0"
    and e2: "e2 = (ys0 \<noteq> [])"
    by auto
  have s1: "nodes s1 = nodes s" "consideration_queue s1 = consideration_queue s"
    "execution_list s1 = execution_list s"
    "\<And>p q. times s1 p q = (if p = PASS then 0 else times s p q)"
    "\<And>ts m. total s1 ts m = (if ts = PASS then map_option (\<lambda>v. 0) (total s ts m) else total s ts m)"
    by (simp_all add: s1_def times_reset_time total_def map_of_reset_count)
  have opt: "map_option (\<lambda>c. c + k) (map_option (\<lambda>v. 0) x) = map_option (\<lambda>c. k) x"
    for k :: int and x :: "int option"
    by (cases x) simp_all
  show ?thesis
  proof (cases e2)
    case True
    with assms ll have "ys = ys0" "s' = increment_time PASS s2"
      by (simp_all add: run_pass_def s1_def [symmetric] Let_def)
    with st ne e2 True s1 show ?thesis
      by (simp add: pass_step_def yields_step_def times_increment_time opt total_def)
  next
    case False
    with assms ll have "ys = ys0 @ [{}]"
      "s' = increment_time PASS (increment_time TIME_STEP
              (s2\<lparr>execution_list := execution_list s2 @ [{}]\<rparr>))"
      by (simp_all add: run_pass_def s1_def [symmetric] Let_def)
    with st ne e2 False s1 show ?thesis
      by (simp add: pass_step_def yields_step_def times_increment_time opt total_def)
  qed
qed

lemma trial_loop_props:
  "trial_loop fuel conds tc s = Some (ys, Inr s') \<Longrightarrow> pass_step s ys s'"
proof (induction fuel arbitrary: s ys)
  case 0
  then show ?case by simp
next
  case (Suc fuel)
  from Suc.prems obtain stop where stop: "tc s = Inr stop"
    by (auto split: sum.splits)
  show ?case
  proof (cases stop)
    case True
    with Suc.prems stop show ?thesis by (simp add: pass_step_refl)
  next
    case False
    with Suc.prems stop obtain ys1 s1 ys2 where
      rp: "run_pass conds tc s = (ys1, Inr s1)"
      and rec: "trial_loop fuel conds tc s1 = Some (ys2, Inr s')"
      and ys: "ys = ys1 @ ys2"
      by (auto split: prod.splits sum.splits option.splits)
    from pass_step_trans [OF run_pass_props [OF rp, THEN conjunct1] Suc.IH [OF rec]] ys
    show ?thesis by simp
  qed
qed

lemma trial_loop_fuel:
  "trial_loop fuel conds tc s = Some r \<Longrightarrow> trial_loop (fuel + k) conds tc s = Some r"
proof (induction fuel arbitrary: s r)
  case 0
  then show ?case by simp
next
  case (Suc fuel)
  show ?case
  proof (cases "tc s")
    case (Inl e)
    with Suc.prems show ?thesis by simp
  next
    case (Inr stop)
    show ?thesis
    proof (cases stop)
      case True
      with Inr Suc.prems show ?thesis by simp
    next
      case False
      obtain ys1 r1 where rp: "run_pass conds tc s = (ys1, r1)"
        by (cases "run_pass conds tc s")
      show ?thesis
      proof (cases r1)
        case (Inl e)
        have "trial_loop (Suc f) conds tc s = Some (ys1, Inl e)" for f
          using Inr False rp Inl by simp
        from this [of fuel] this [of "fuel + k"] Suc.prems show ?thesis
          by (simp del: trial_loop.simps)
      next
        case r1: (Inr s1)
        have step: "trial_loop (Suc f) conds tc s =
            (case trial_loop f conds tc s1 of
               None \<Rightarrow> None
             | Some (ys', r) \<Rightarrow> Some (ys1 @ ys', r))" for f
          using Inr False rp r1 by simp
        from Suc.prems step [of fuel] obtain r2 where
          rec: "trial_loop fuel conds tc s1 = Some r2"
          by (cases "trial_loop fuel conds tc s1") auto
        from Suc.IH [OF rec] rec
        have "trial_loop (Suc (fuel + k)) conds tc s = trial_loop (Suc fuel) conds tc s"
          by (simp only: step)
        with Suc.prems show ?thesis
          by (simp del: trial_loop.simps)
      qed
    qed
  qed
qed

lemma run_fuel:
  assumes "run fuel cs tcs s = Some r"
  shows "run (fuel + k) cs tcs s = Some r"
proof (cases "validate_termination tcs")
  case (Inl e)
  with assms show ?thesis by (simp add: run_def)
next
  case (Inr m)
  show ?thesis
  proof (cases "m TRIAL")
    case None
    with Inr assms show ?thesis by (simp add: run_def)
  next
    case (Some v)
    show ?thesis
    proof (cases v)
      case None
      with Inr Some assms show ?thesis by (simp add: run_def)
    next
      case tc: (Some tc)
      define conds where "conds = validate_condition_set (nodes s) cs"
      define s1 where "s1 = reset_time TRIAL
          (s\<lparr>counts_useable := zero_useable (nodes s),
             counts_total := reset_count (counts_total s) TRIAL\<rparr>)"
      have run_eq: "run f cs tcs s =
          (case trial_loop f conds tc s1 of
             None \<Rightarrow> None
           | Some (ys, Inl e) \<Rightarrow> Some (ys, Inl e)
           | Some (ys, Inr s2) \<Rightarrow> Some (ys, Inr (increment_time TRIAL s2)))" for f
        using Inr Some tc by (simp add: run_def Let_def conds_def s1_def)
      from assms run_eq [of fuel] obtain r0 where r0: "trial_loop fuel conds tc s1 = Some r0"
        by (cases "trial_loop fuel conds tc s1") auto
      from trial_loop_fuel [OF r0, of k] r0 assms show ?thesis
        by (simp add: run_eq)
    qed
  qed
qed


lemmas run_eval = run_def init_counts_def validate_condition_set_def
  validate_termination_def TimeScales_def zero_useable_def reset_time_def reset_count_def
  dict_from_keys_def run_pass_def AllHaveRun_def Always_def EveryNCalls_def AtPass_def
  AfterNPasses_def useable_def total_def fire_def increment_time_def yielded_def
  final_state_def fixpoint.simps

lemma chain_run:
  "yielded (run 7 conds_chain None sched_chain) =
     Some [{A}, {A}, {B}, {A}, {A}, {B}, {A}, {A}, {B}, {C}]"
  "map_option (\<lambda>s. (times s TIME_STEP TIME_STEP, times s TRIAL TRIAL, execution_list s))
      (final_state (run 7 conds_chain None sched_chain)) =
     Some (10, 1, [{A}, {A}, {B}, {A}, {A}, {B}, {A}, {A}, {B}, {C}])"
  by (simp_all add: run_eval conds_chain_def sched_chain_def eval_nat_numeral)

section \<open>The update at a firing node\<close>

text \<open>
  C1 (as stated): after node n fires, \<open>counts_useable[n][b] == 0\<close> for every node b and
  \<open>counts_useable[a][n]\<close> has increased by 1 for every other node a. The code does the
  transpose: firing A in the fresh Scheduler of the chain leaves \<open>counts_useable[A][B]\<close>
  at 1, not 0, and \<open>counts_useable[B][A]\<close> at 0, not 1.
\<close>

theorem fire_transposed_counterexample:
  "map_sum id (\<lambda>s'. (useable s' A B, useable s' B A)) (fire A sched_chain) =
     Inr (Some 1, Some 0)"
  by (simp add: fire_def sched_chain_def init_counts_def TimeScales_def zero_useable_def
      dict_from_keys_def useable_def)

text \<open>
  C1 (amended): after node n fires, \<open>counts_useable[a][n] == 0\<close> for every other node a,
  \<open>counts_useable[n][n] == 1\<close>, and \<open>counts_useable[n][b]\<close> has increased by exactly 1
  for every other node b.
\<close>

theorem fire_counts_useable:
  assumes "fire n s = Inr s'"
    and "distinct (map fst (counts_useable s))"
    and "n \<in> fst ` set (counts_useable s)"
  shows "(\<forall>a \<in> fst ` set (counts_useable s). a \<noteq> n \<longrightarrow> useable s' a n = Some 0) \<and>
         useable s' n n = Some 1 \<and>
         (\<forall>b \<in> fst ` set (counts_useable s). b \<noteq> n \<longrightarrow>
            (\<exists>c. useable s n b = Some c \<and> useable s' n b = Some (c + 1)))"
  using fire_useable(1-3) [OF assms] by blast

theorem fire_counts_useable_witness:
  "\<exists>s'. fire A sched_chain = Inr s' \<and>
        distinct (map fst (counts_useable sched_chain)) \<and>
        A \<in> fst ` set (counts_useable sched_chain) \<and>
        useable s' B A = Some 0 \<and> useable s' C A = Some 0 \<and>
        useable s' A A = Some 1 \<and>
        useable s' A B = Some 1 \<and> useable s' A C = Some 1"
proof -
  have d: "distinct (map fst (counts_useable sched_chain))"
    and m: "A \<in> fst ` set (counts_useable sched_chain)"
    and k: "fst ` set (counts_useable sched_chain) = {A, B, C}"
    and u: "useable sched_chain A B = Some 0" "useable sched_chain A C = Some 0"
    by (simp_all add: sched_chain_def init_counts_def zero_useable_def dict_from_keys_def
        useable_def)
  have "\<not> isl (fire A sched_chain)"
    by (simp add: fire_def sched_chain_def init_counts_def TimeScales_def zero_useable_def
        dict_from_keys_def)
  then obtain s' where f: "fire A sched_chain = Inr s'"
    by (cases "fire A sched_chain") auto
  from fire_counts_useable [OF f d m] u have
    "useable s' B A = Some 0" "useable s' C A = Some 0" "useable s' A A = Some 1"
    "useable s' A B = Some 1" "useable s' A C = Some 1"
    by (auto simp: k)
  with f d m show ?thesis by blast
qed

section \<open>Properties of run\<close>

lemma run_props:
  assumes "run fuel cs tcs s = Some (ys, Inr s')"
  shows "nodes s' = nodes s \<and> consideration_queue s' = consideration_queue s \<and>
    execution_list s' = execution_list s @ ys \<and>
    (\<forall>p. p \<noteq> PASS \<longrightarrow> p \<noteq> TRIAL \<longrightarrow>
       times s' p TIME_STEP = times s p TIME_STEP + int (length ys)) \<and>
    (\<forall>ts m. ts \<noteq> PASS \<longrightarrow> ts \<noteq> TRIAL \<longrightarrow>
       total s' ts m = map_option (\<lambda>c. c + fired_count m ys) (total s ts m)) \<and>
    (\<forall>m. total s' TRIAL m = map_option (\<lambda>c. fired_count m ys) (total s TRIAL m))"
proof -
  define conds where "conds = validate_condition_set (nodes s) cs"
  define s1 where "s1 = reset_time TRIAL
      (s\<lparr>counts_useable := zero_useable (nodes s),
         counts_total := reset_count (counts_total s) TRIAL\<rparr>)"
  from assms obtain tc s2 where tl: "trial_loop fuel conds tc s1 = Some (ys, Inr s2)"
    and s': "s' = increment_time TRIAL s2"
    by (auto simp: run_def Let_def conds_def [symmetric] s1_def [symmetric]
        split: sum.splits option.splits prod.splits)
  have s1: "nodes s1 = nodes s" "consideration_queue s1 = consideration_queue s"
    "execution_list s1 = execution_list s"
    "\<And>p q. times s1 p q = (if p = TRIAL then 0 else times s p q)"
    "\<And>ts m. total s1 ts m = (if ts = TRIAL then map_option (\<lambda>v. 0) (total s ts m) else total s ts m)"
    by (simp_all add: s1_def times_reset_time total_def map_of_reset_count)
  have opt: "map_option (\<lambda>c. c + k) (map_option (\<lambda>v. 0) x) = map_option (\<lambda>c. k) x"
    for k :: int and x :: "int option"
    by (cases x) simp_all
  from trial_loop_props [OF tl] s1 s' show ?thesis
    by (simp add: pass_step_def times_increment_time opt total_def)
qed

lemma Scheduler_init_execution_list:
  "Scheduler_init sys_arg nodes_arg ord = Inr s \<Longrightarrow> execution_list s = []"
  by (auto simp: Scheduler_init_def init_counts_def Let_def split: option.splits sum.splits)

lemma single_run:
  "\<exists>s'. run 3 conds_single (Some two_passes) sched_single = Some ([{A}, {}], Inr s')"
  by (simp add: run_eval conds_single_def sched_single_def two_passes_def eval_nat_numeral)

























section \<open>A scale within itself\<close>




section \<open>The empty time step of a pass\<close>

text \<open>
  C2 (as stated): the empty time step at the end of a pass is appended and yielded if and
  only if no node has fired during the entire run up to that point; once a node has fired
  in an earlier pass, no later pass yields the empty set. The Scheduler of the single
  node A that runs at pass 0 only yields A in its first pass and the empty set in its
  second pass.
\<close>

theorem empty_guard_after_firing_counterexample:
  "yielded (run 3 conds_single (Some two_passes) sched_single) = Some [{A}, {}]"
  using single_run by (auto simp: yielded_def)

text \<open>
  C2 (amended): the empty time step at the end of a pass is appended to \<open>execution_list\<close>
  and yielded, and TIME_STEP incremented, if and only if no node has fired during that
  pass (the flag \<open>execution_list_has_changed\<close> is set to false when a pass begins); it is
  then the only time step of the pass. The count of a node at the scale PASS at the end
  of the pass is the number of the time steps of the pass in which the node fired.
\<close>

theorem run_pass_empty_guard:
  assumes "run_pass conds tc s = (ys, Inr s')"
  shows "({} \<in> set ys) = (\<forall>m. fired_count m ys = 0) \<and>
    ({} \<in> set ys \<longrightarrow> ys = [{}]) \<and>
    (\<forall>m. total s' PASS m = map_option (\<lambda>c. fired_count m ys) (total s PASS m)) \<and>
    execution_list s' = execution_list s @ ys \<and>
    (\<forall>p. p \<noteq> PASS \<longrightarrow> times s' p TIME_STEP = times s p TIME_STEP + int (length ys))"
proof -
  note p = run_pass_props [OF assms]
  from p have alt: "ys = [{}] \<or> ys \<noteq> [] \<and> {} \<notin> set ys" by simp
  have "({} \<in> set ys) = (\<forall>m. fired_count m ys = 0)"
  proof (cases "ys = [{}]")
    case True
    then show ?thesis by simp
  next
    case False
    with alt have ne: "ys \<noteq> []" and no: "{} \<notin> set ys" by auto
    from ne obtain y where y: "y \<in> set ys" by (cases ys) auto
    with no obtain m where m: "m \<in> y" by (cases "y = {}") auto
    from y m have "filter (\<lambda>y. m \<in> y) ys \<noteq> []"
      by (auto simp: filter_empty_conv)
    then have "fired_count m ys \<noteq> 0"
      by (simp add: fired_count_def)
    with no show ?thesis by auto
  qed
  moreover from alt have "{} \<in> set ys \<longrightarrow> ys = [{}]" by auto
  ultimately show ?thesis using p by (simp add: pass_step_def)
qed

theorem run_pass_empty_guard_witness:
  "\<exists>s'. run_pass conds_single (AfterNPasses 2) sched_single = ([{A}], Inr s') \<and>
        {} \<notin> set [{A}] \<and> fired_count A [{A}] = 1 \<and> total s' PASS A = Some 1 \<and>
        execution_list s' = [{A}]"
proof -
  have "\<exists>s'. run_pass conds_single (AfterNPasses 2) sched_single = ([{A}], Inr s')"
    by (simp add: run_eval conds_single_def sched_single_def)
  then obtain s' where r: "run_pass conds_single (AfterNPasses 2) sched_single = ([{A}], Inr s')" ..
  have t0: "total sched_single PASS A = Some 0" "execution_list sched_single = []"
    by (simp_all add: sched_single_def init_counts_def total_def TimeScales_def
        dict_from_keys_def)
  from run_pass_empty_guard [OF r] t0 have
    "{} \<notin> set [{A}]" "fired_count A [{A}] = 1" "total s' PASS A = Some 1"
    "execution_list s' = [{A}]"
    by simp_all
  with r show ?thesis by blast
qed

section \<open>The documented chain\<close>

text \<open>
  C3: for the linear chain A, B, C with \<open>EveryNCalls(A, 2)\<close> on B, \<open>EveryNCalls(B, 3)\<close>
  on C, no Condition on A and no termination Conditions (\<open>AllHaveRun\<close>), the Scheduler
  built from the System has the consideration queue [A], [B], [C], and draining \<open>run\<close>
  yields the singletons A, A, B, A, A, B, A, A, B, C in this order and ends without an
  error, whenever the fuel is at least 7.
\<close>

theorem chain_firing_sequence:
  "Scheduler_init (Some chain_system) None None = Inr sched_chain \<and>
   yielded (run (7 + k) conds_chain None sched_chain) =
     Some [{A}, {A}, {B}, {A}, {A}, {B}, {A}, {A}, {B}, {C}] \<and>
   map_option execution_list (final_state (run (7 + k) conds_chain None sched_chain)) =
     Some [{A}, {A}, {B}, {A}, {A}, {B}, {A}, {A}, {B}, {C}]"
proof -
  have i: "Scheduler_init (Some chain_system) None None = Inr sched_chain"
    by (simp add: Scheduler_init_def chain_system_def sched_chain_def
        init_consideration_queue_from_system_def toposort_def complete_graph_def
        layering.simps peel_def remaining_def)
  obtain r where r: "run 7 conds_chain None sched_chain = Some r"
    using chain_run(1) by (cases "run 7 conds_chain None sched_chain") (auto simp: yielded_def)
  from run_fuel [OF r, of k] r chain_run have
    "yielded (run (7 + k) conds_chain None sched_chain) =
       Some [{A}, {A}, {B}, {A}, {A}, {B}, {A}, {A}, {B}, {C}]"
    "map_option execution_list (final_state (run (7 + k) conds_chain None sched_chain)) =
       Some [{A}, {A}, {B}, {A}, {A}, {B}, {A}, {A}, {B}, {C}]"
    by (auto simp: option.map_comp comp_def
        dest: arg_cong [where f = "map_option (\<lambda>x. snd (snd x))"])
  with i show ?thesis by simp
qed

theorem chain_firing_sequence_witness:
  "Scheduler_init (Some chain_system) None None = Inr sched_chain \<and>
   yielded (run 7 conds_chain None sched_chain) =
     Some [{A}, {A}, {B}, {A}, {A}, {B}, {A}, {A}, {B}, {C}] \<and>
   map_option execution_list (final_state (run 7 conds_chain None sched_chain)) =
     Some [{A}, {A}, {B}, {A}, {A}, {B}, {A}, {A}, {B}, {C}]"
  using chain_firing_sequence [of 0] by simp

section \<open>The history of the time steps\<close>

text \<open>
  C4 (as stated): for a Scheduler on which \<open>run\<close> is driven to completion,
  \<open>execution_list\<close> at the end equals the list of the time steps that the generator
  yielded. On a second call of \<open>run\<close> on the Scheduler of the single node A the
  generator yields A and the empty set, and \<open>execution_list\<close> at the end holds the four
  time steps of both calls.
\<close>

theorem second_run_history_counterexample:
  "yielded (run_after (run 3 conds_single (Some two_passes) sched_single)
              3 conds_single (Some two_passes)) = Some [{A}, {}] \<and>
   map_option execution_list
     (final_state (run_after (run 3 conds_single (Some two_passes) sched_single)
                     3 conds_single (Some two_passes))) = Some [{A}, {}, {A}, {}]"
  by (simp add: run_after_def run_eval conds_single_def sched_single_def two_passes_def
      eval_nat_numeral)

text \<open>
  C4 (amended): for a Scheduler on which \<open>run\<close> is driven to completion,
  \<open>execution_list\<close> at the end is the \<open>execution_list\<close> that the call found, followed by
  the time steps that the generator yielded, in the order of the yields; for a Scheduler
  as constructed, which has no history, it is exactly the list of the yields.
\<close>

theorem run_appends_yields:
  assumes "run fuel cs tcs s = Some (ys, Inr s')"
  shows "execution_list s' = execution_list s @ ys \<and>
    (\<forall>sys_arg nodes_arg ord.
       Scheduler_init sys_arg nodes_arg ord = Inr s \<longrightarrow> execution_list s' = ys)"
  using run_props [OF assms] Scheduler_init_execution_list by fastforce

theorem run_appends_yields_witness:
  "\<exists>s'. Scheduler_init None (Some [A]) (Some [[A]]) = Inr sched_single \<and>
        run 3 conds_single (Some two_passes) sched_single = Some ([{A}, {}], Inr s') \<and>
        execution_list s' = execution_list sched_single @ [{A}, {}] \<and>
        execution_list s' = [{A}, {}]"
proof -
  have i: "Scheduler_init None (Some [A]) (Some [[A]]) = Inr sched_single"
    by (simp add: Scheduler_init_def sched_single_def)
  from single_run obtain s' where
    r: "run 3 conds_single (Some two_passes) sched_single = Some ([{A}, {}], Inr s')" ..
  from run_appends_yields [OF r] i r show ?thesis by blast
qed



section \<open>Termination Conditions that leave TRIAL open\<close>




text \<open>
  C10: if the dictionary \<open>termination_conds\<close> has no key TRIAL, the validation raises no
  error and returns the dictionary as it is, and \<open>run\<close> ends with a \<open>KeyError\<close> at the
  first read of \<open>termination_conds[TimeScale.TRIAL]\<close>, before any time step.
\<close>

theorem run_trial_key_missing:
  assumes "tcs TRIAL = None"
  shows "validate_termination (Some tcs) = Inr tcs \<and>
         run fuel cs (Some tcs) s = Some ([], Inl KeyError)"
proof -
  have "\<not> (\<exists>tc \<in> set TimeScales.
          (case tcs tc of None \<Rightarrow> False | Some None \<Rightarrow> tc \<in> set [TRIAL] | Some (Some c) \<Rightarrow> False))"
    using assms by (auto split: option.splits)
  then have "validate_termination (Some tcs) = Inr tcs"
    by (simp add: validate_termination_def)
  with assms show ?thesis by (simp add: run_def)
qed

theorem run_trial_key_missing_witness:
  "[PASS \<mapsto> Some AllHaveRun] TRIAL = None \<and>
   validate_termination (Some [PASS \<mapsto> Some AllHaveRun]) =
     (Inr [PASS \<mapsto> Some AllHaveRun] :: error + node termination_conds) \<and>
   run 7 conds_chain (Some [PASS \<mapsto> Some AllHaveRun]) sched_chain = Some ([], Inl KeyError)"
  using run_trial_key_missing [of "[PASS \<mapsto> Some AllHaveRun]" 7 conds_chain sched_chain] by simp

section \<open>The consideration queue of a dependency graph\<close>

lemma keys_remaining:
  "map fst (remaining ordered data) = filter (\<lambda>k. k \<notin> set ordered) (map fst data)"
  by (induction data) (auto simp: remaining_def)

lemma distinct_remaining:
  "distinct (map fst data) \<Longrightarrow> distinct (map fst (remaining ordered data))"
  by (simp add: keys_remaining)

lemma in_remaining:
  "(v, ds') \<in> set (remaining ordered data) \<longleftrightarrow>
     v \<notin> set ordered \<and> (\<exists>ds. (v, ds) \<in> set data \<and> ds' = filter (\<lambda>d. d \<notin> set ordered) ds)"
  by (auto simp: remaining_def)

lemma edges_remaining:
  "edges (remaining ordered data) =
     {(u, v). (u, v) \<in> edges data \<and> u \<notin> set ordered \<and> v \<notin> set ordered}"
  by (auto simp: edges_def in_remaining)

lemma closed_remaining:
  assumes "closed_graph data"
  shows "closed_graph (remaining ordered data)"
proof -
  have "set ds' \<subseteq> fst ` set (remaining ordered data)"
    if "(v, ds') \<in> set (remaining ordered data)" for v ds'
  proof
    fix d assume d: "d \<in> set ds'"
    from that obtain ds where ds: "(v, ds) \<in> set data"
      and ds': "ds' = filter (\<lambda>d. d \<notin> set ordered) ds"
      by (auto simp: in_remaining)
    from d ds' have "d \<in> set ds" "d \<notin> set ordered" by auto
    with assms ds have "d \<in> set (map fst data)"
      by (auto simp: closed_graph_def)
    with \<open>d \<notin> set ordered\<close> have "d \<in> set (map fst (remaining ordered data))"
      by (simp add: keys_remaining)
    then show "d \<in> fst ` set (remaining ordered data)" by simp
  qed
  then show ?thesis by (auto simp: closed_graph_def)
qed

lemma peel_iff:
  "v \<in> set (peel data) \<longleftrightarrow> (v, []) \<in> set data"
  by (force simp: peel_def)

lemma peel_keys: "set (peel data) \<subseteq> fst ` set data"
  by (auto simp: peel_def)

lemma not_peeled:
  assumes "distinct (map fst data)" "(v, ds) \<in> set data" "ds \<noteq> []"
  shows "v \<notin> set (peel data)"
proof
  assume "v \<in> set (peel data)"
  then have "(v, []) \<in> set data" by (simp add: peel_iff)
  with assms(1,2) have "ds = []"
    by (meson eq_key_imp_eq_value)
  with assms(3) show False by simp
qed

lemma layering_nodes:
  "layering data = Inr q \<Longrightarrow> \<Union> (set ` set q) = fst ` set data"
proof (induction data arbitrary: q rule: layering.induct)
  case (1 data)
  show ?case
  proof (cases "data = []")
    case True
    with "1.prems" show ?thesis by (simp add: layering.simps)
  next
    case False
    with "1.prems" have ne: "peel data \<noteq> []"
      by (subst (asm) layering.simps) (auto split: if_splits)
    with False "1.prems" obtain q' where
      rec: "layering (remaining (peel data) data) = Inr q'" and q: "q = peel data # q'"
      by (subst (asm) layering.simps) (auto split: sum.splits)
    from "1.IH" [OF False ne rec]
    have "\<Union> (set ` set q') = set (map fst (remaining (peel data) data))" by simp
    also have "\<dots> = fst ` set data - set (peel data)"
      by (auto simp: keys_remaining)
    finally show ?thesis using q peel_keys [of data] by auto
  qed
qed

lemma layer_index_Some:
  "n \<in> \<Union> (set ` set q) \<Longrightarrow> \<exists>i. layer_index q n = Some i"
  by (induction q) auto

lemma layer_index_None:
  "n \<notin> \<Union> (set ` set q) \<Longrightarrow> layer_index q n = None"
  by (induction q) auto

lemma layering_edges:
  "layering data = Inr q \<Longrightarrow> distinct (map fst data) \<Longrightarrow> (u, v) \<in> edges data \<Longrightarrow>
     \<exists>i j. layer_index q u = Some i \<and> layer_index q v = Some j \<and> i < j"
proof (induction data arbitrary: q rule: layering.induct)
  case (1 data)
  from "1.prems"(3) obtain ds where ds: "(v, ds) \<in> set data" "u \<in> set ds"
    by (auto simp: edges_def)
  then have False: "data \<noteq> []" by auto
  with "1.prems" have ne: "peel data \<noteq> []"
    by (subst (asm) layering.simps) (auto split: if_splits)
  with False "1.prems" obtain q' where
    rec: "layering (remaining (peel data) data) = Inr q'" and q: "q = peel data # q'"
    by (subst (asm) layering.simps) (auto split: sum.splits)
  from ds have "ds \<noteq> []" by auto
  from not_peeled [OF "1.prems"(2) ds(1) this] have v: "v \<notin> set (peel data)" .
  from ds(1) v have "v \<in> fst ` set data - set (peel data)" by force
  also have "\<dots> = set (map fst (remaining (peel data) data))"
    by (auto simp: keys_remaining)
  finally have "v \<in> \<Union> (set ` set q')"
    using layering_nodes [OF rec] by simp
  from layer_index_Some [OF this] obtain j where j: "layer_index q' v = Some j" ..
  show ?case
  proof (cases "u \<in> set (peel data)")
    case True
    with v j q show ?thesis by simp
  next
    case u: False
    with v "1.prems"(3) have "(u, v) \<in> edges (remaining (peel data) data)"
      by (simp add: edges_remaining)
    from "1.IH" [OF False ne rec distinct_remaining [OF "1.prems"(2)] this]
    obtain i j where "layer_index q' u = Some i" "layer_index q' v = Some j" "i < j"
      by blast
    with u v q show ?thesis by simp
  qed
qed

lemma layering_unique:
  "layering data = Inr q \<Longrightarrow> i < length q \<Longrightarrow> n \<in> set (q ! i) \<Longrightarrow>
     layer_index q n = Some i"
proof (induction data arbitrary: q i rule: layering.induct)
  case (1 data)
  from "1.prems" have False: "data \<noteq> []"
    by (subst (asm) layering.simps) (auto split: if_splits)
  with "1.prems" have ne: "peel data \<noteq> []"
    by (subst (asm) layering.simps) (auto split: if_splits)
  with False "1.prems" obtain q' where
    rec: "layering (remaining (peel data) data) = Inr q'" and q: "q = peel data # q'"
    by (subst (asm) layering.simps) (auto split: sum.splits)
  show ?case
  proof (cases i)
    case 0
    with "1.prems" q show ?thesis by simp
  next
    case (Suc i')
    with "1.prems" q have i': "i' < length q'" "n \<in> set (q' ! i')" by simp_all
    then have "n \<in> \<Union> (set ` set q')" by (auto intro: nth_mem)
    with layering_nodes [OF rec] have "n \<in> set (map fst (remaining (peel data) data))"
      by simp
    then have "n \<notin> set (peel data)" by (simp add: keys_remaining)
    with "1.IH" [OF False ne rec i'] q Suc show ?thesis by simp
  qed
qed

lemma finite_edges: "finite (edges g)"
proof -
  have "edges g \<subseteq> (\<Union>(v, ds) \<in> set g. set ds) \<times> fst ` set g"
    by (force simp: edges_def)
  moreover have "finite ((\<Union>(v, ds) \<in> set g. set ds) \<times> fst ` set g)"
    by auto
  ultimately show ?thesis by (rule finite_subset)
qed

lemma exists_peel:
  assumes "data \<noteq> []" "closed_graph data" "acyclic (edges data)"
  shows "peel data \<noteq> []"
proof -
  from finite_edges assms(3) have "wf (edges data)" by (rule finite_acyclic_wf)
  moreover from assms(1) have "fst ` set data \<noteq> {}" by simp
  ultimately obtain z where z: "z \<in> fst ` set data"
    and min: "\<And>y. (y, z) \<in> edges data \<Longrightarrow> y \<notin> fst ` set data"
    by (rule wfE_min') blast
  from z obtain ds where ds: "(z, ds) \<in> set data" by auto
  have "ds = []"
  proof (cases ds)
    case Nil
    then show ?thesis .
  next
    case (Cons d ds')
    with ds have "(d, z) \<in> edges data" by (auto simp: edges_def)
    from min [OF this] have "d \<notin> fst ` set data" .
    moreover from assms(2) ds Cons have "d \<in> fst ` set data"
      by (auto simp: closed_graph_def)
    ultimately show ?thesis by simp
  qed
  with ds have "z \<in> set (peel data)" by (simp add: peel_iff)
  then show ?thesis by auto
qed

lemma layering_succeeds:
  "closed_graph data \<Longrightarrow> acyclic (edges data) \<Longrightarrow> \<exists>q. layering data = Inr q"
proof (induction data rule: layering.induct)
  case (1 data)
  show ?case
  proof (cases "data = []")
    case True
    then show ?thesis by (simp add: layering.simps)
  next
    case False
    from exists_peel [OF False "1.prems"] have ne: "peel data \<noteq> []" .
    have "acyclic (edges (remaining (peel data) data))"
      using "1.prems"(2) by (rule acyclic_subset) (auto simp: edges_remaining)
    from "1.IH" [OF False ne closed_remaining [OF "1.prems"(1)] this]
    obtain q' where "layering (remaining (peel data) data) = Inr q'" ..
    with False ne show ?thesis by (subst layering.simps) simp
  qed
qed

lemma layering_error:
  "layering data = Inl e \<Longrightarrow> e = NotAcyclicError"
proof (induction data rule: layering.induct)
  case (1 data)
  show ?case
  proof (cases "data = [] \<or> peel data = []")
    case True
    with "1.prems" show ?thesis
      by (subst (asm) layering.simps) (auto split: if_splits)
  next
    case False
    with "1.prems" have "layering (remaining (peel data) data) = Inl e"
      by (subst (asm) layering.simps) (auto split: sum.splits)
    with "1.IH" False show ?thesis by simp
  qed
qed

lemma layering_acyclic:
  assumes "layering data = Inr q" "distinct (map fst data)"
  shows "acyclic (edges data)"
proof -
  define f where "f n = (case layer_index q n of None \<Rightarrow> 0 | Some i \<Rightarrow> i)" for n
  have "f u < f v" if "(u, v) \<in> edges data" for u v
    using layering_edges [OF assms that] by (auto simp: f_def)
  then have "acyclic ((edges data)\<inverse>)"
    by (intro acyclicI_order [where f = f]) auto
  then show ?thesis by simp
qed


lemma edges_complete_graph: "edges (complete_graph g) = edges g"
  by (auto simp: edges_def complete_graph_def)

lemma keys_complete_graph: "fst ` set (complete_graph g) = graph_nodes g"
  by (force simp: complete_graph_def graph_nodes_def image_Un image_image)

lemma closed_complete_graph: "closed_graph (complete_graph g)"
proof -
  have "set ds \<subseteq> fst ` set (complete_graph g)" if "(v, ds) \<in> set (complete_graph g)" for v ds
  proof -
    from that have "(v, ds) \<in> set g \<or> ds = []"
      by (auto simp: complete_graph_def)
    then show ?thesis
      by (auto simp: keys_complete_graph graph_nodes_def)
  qed
  then show ?thesis by (auto simp: closed_graph_def)
qed

lemma distinct_complete_graph:
  "distinct (map fst g) \<Longrightarrow> distinct (map fst (complete_graph g))"
  by (auto simp: complete_graph_def comp_def)

lemma complete_graph_Nil: "complete_graph g = [] \<longleftrightarrow> g = []"
  by (auto simp: complete_graph_def)

lemma set_fold_insert: "set (fold List.insert xs ys) = set xs \<union> set ys"
  by (induction xs arbitrary: ys) auto

lemma layer_index_copy:
  "layer_index (map (\<lambda>l. fold List.insert l []) q) n = layer_index q n"
  by (induction q) (simp_all add: set_fold_insert)

lemma first_layer:
  assumes "distinct (map fst data)"
  shows "set (peel data) = {n \<in> fst ` set data. \<forall>u. (u, n) \<notin> edges data}"
proof (intro equalityI subsetI)
  fix n assume "n \<in> set (peel data)"
  then have n: "(n, []) \<in> set data" by (simp add: peel_iff)
  have "(u, n) \<notin> edges data" for u
  proof
    assume "(u, n) \<in> edges data"
    then obtain ds where "(n, ds) \<in> set data" "u \<in> set ds"
      by (auto simp: edges_def)
    with assms n show False
      by (metis eq_key_imp_eq_value empty_iff list.set(1))
  qed
  with n show "n \<in> {n \<in> fst ` set data. \<forall>u. (u, n) \<notin> edges data}" by force
next
  fix n assume "n \<in> {n \<in> fst ` set data. \<forall>u. (u, n) \<notin> edges data}"
  then obtain ds where ds: "(n, ds) \<in> set data" and no: "\<forall>u. (u, n) \<notin> edges data"
    by auto
  have "ds = []"
  proof (cases ds)
    case Nil
    then show ?thesis .
  next
    case (Cons d ds')
    with ds have "(d, n) \<in> edges data" by (auto simp: edges_def)
    with no show ?thesis by simp
  qed
  with ds show "n \<in> set (peel data)" by (simp add: peel_iff)
qed

lemma toposort_acyclic:
  assumes "acyclic (edges g)" "distinct (map fst g)"
  shows "\<exists>q. toposort g = Inr q \<and>
    (\<forall>(u, v) \<in> edges g. \<exists>i j. layer_index q u = Some i \<and> layer_index q v = Some j \<and> i < j) \<and>
    (\<forall>i n. i < length q \<longrightarrow> n \<in> set (q ! i) \<longrightarrow> layer_index q n = Some i) \<and>
    (g \<noteq> [] \<longrightarrow> q \<noteq> [] \<and> set (hd q) = {n \<in> graph_nodes g. \<forall>u. (u, n) \<notin> edges g}) \<and>
    (g = [] \<longrightarrow> q = [])"
proof -
  let ?cg = "complete_graph g"
  from assms(1) have "acyclic (edges ?cg)" by (simp add: edges_complete_graph)
  from layering_succeeds [OF closed_complete_graph this]
  obtain q where q: "layering ?cg = Inr q" ..
  note d = distinct_complete_graph [OF assms(2)]
  have e: "\<forall>(u, v) \<in> edges g. \<exists>i j. layer_index q u = Some i \<and> layer_index q v = Some j \<and> i < j"
    using layering_edges [OF q d] by (auto simp: edges_complete_graph)
  have u: "\<forall>i n. i < length q \<longrightarrow> n \<in> set (q ! i) \<longrightarrow> layer_index q n = Some i"
    using layering_unique [OF q] by blast
  have f: "q \<noteq> [] \<and> set (hd q) = {n \<in> graph_nodes g. \<forall>u. (u, n) \<notin> edges g}" if "g \<noteq> []"
  proof -
    from that have ne: "?cg \<noteq> []" by (simp add: complete_graph_Nil)
    with q have "peel ?cg \<noteq> []"
      by (subst (asm) layering.simps) (auto split: if_splits)
    with ne q obtain q' where "q = peel ?cg # q'"
      by (subst (asm) layering.simps) (auto split: sum.splits)
    with first_layer [OF d] show ?thesis
      by (simp add: keys_complete_graph edges_complete_graph)
  qed
  have n: "q = []" if "g = []"
    using that q by (simp add: complete_graph_def layering.simps)
  from q e u f n show ?thesis by (auto simp: toposort_def)
qed

lemma toposort_cyclic:
  assumes "\<not> acyclic (edges g)" "distinct (map fst g)"
  shows "toposort g = Inl NotAcyclicError"
proof (cases "layering (complete_graph g)")
  case (Inl e)
  with layering_error [OF Inl] show ?thesis by (simp add: toposort_def)
next
  case (Inr q)
  from layering_acyclic [OF Inr distinct_complete_graph [OF assms(2)]] assms(1)
  show ?thesis by (simp add: edges_complete_graph)
qed

text \<open>
  C6: for every acyclic dependency graph (a dictionary, so with distinct keys) supplied
  at construction, the construction succeeds and in the resulting consideration queue
  the layer of u comes strictly before the layer of v for every edge from u to v, every
  node is in one layer only, and the first layer contains exactly the nodes without an
  incoming edge.
\<close>

theorem consideration_queue_layers:
  assumes "acyclic (edges (executionGraph sys))"
    and "distinct (map fst (executionGraph sys))"
  shows "\<exists>s. Scheduler_init (Some sys) nodes_arg ord = Inr s \<and>
    (\<forall>(u, v) \<in> edges (executionGraph sys).
       \<exists>i j. layer_index (consideration_queue s) u = Some i \<and>
             layer_index (consideration_queue s) v = Some j \<and> i < j) \<and>
    (\<forall>i n. i < length (consideration_queue s) \<longrightarrow> n \<in> set (consideration_queue s ! i) \<longrightarrow>
       layer_index (consideration_queue s) n = Some i) \<and>
    (executionGraph sys \<noteq> [] \<longrightarrow>
       consideration_queue s \<noteq> [] \<and>
       set (hd (consideration_queue s)) =
         {n \<in> graph_nodes (executionGraph sys). \<forall>u. (u, n) \<notin> edges (executionGraph sys)})"
proof -
  let ?g = "executionGraph sys"
  let ?copy = "map (\<lambda>l. fold List.insert l [])"
  from toposort_acyclic [OF assms] obtain q where q: "toposort ?g = Inr q"
    and e: "\<forall>(u, v) \<in> edges ?g. \<exists>i j. layer_index q u = Some i \<and> layer_index q v = Some j \<and> i < j"
    and u: "\<forall>i n. i < length q \<longrightarrow> n \<in> set (q ! i) \<longrightarrow> layer_index q n = Some i"
    and f: "?g \<noteq> [] \<longrightarrow> q \<noteq> [] \<and> set (hd q) = {n \<in> graph_nodes ?g. \<forall>u. (u, n) \<notin> edges ?g}"
    by blast
  define s where "s = init_counts
      \<lparr>nodes = executionList sys, consideration_queue = ?copy q, execution_list = [],
        times = (\<lambda>p q. 0), counts_total = (\<lambda>ts. []), counts_useable = []\<rparr>"
  have cq: "consideration_queue s = ?copy q"
    by (simp add: s_def init_counts_def)
  have i: "Scheduler_init (Some sys) nodes_arg ord = Inr s"
    using q by (simp add: Scheduler_init_def init_consideration_queue_from_system_def s_def)
  have h: "set (hd (?copy q)) = set (hd q)" if "q \<noteq> []"
    using that by (cases q) (simp_all add: set_fold_insert)
  from e u f h i show ?thesis
    by (auto simp: cq layer_index_copy set_fold_insert)
qed

lemma chain_init: "Scheduler_init (Some chain_system) None None = Inr sched_chain"
  by (simp add: Scheduler_init_def chain_system_def sched_chain_def
      init_consideration_queue_from_system_def toposort_def complete_graph_def
      layering.simps peel_def remaining_def)

theorem consideration_queue_layers_witness:
  "acyclic (edges (executionGraph chain_system)) \<and>
   distinct (map fst (executionGraph chain_system)) \<and>
   Scheduler_init (Some chain_system) None None = Inr sched_chain \<and>
   (A, B) \<in> edges (executionGraph chain_system) \<and>
   (\<exists>i j. layer_index (consideration_queue sched_chain) A = Some i \<and>
          layer_index (consideration_queue sched_chain) B = Some j \<and> i < j) \<and>
   set (hd (consideration_queue sched_chain)) =
     {n \<in> graph_nodes (executionGraph chain_system).
        \<forall>u. (u, n) \<notin> edges (executionGraph chain_system)}"
proof -
  have d: "distinct (map fst (executionGraph chain_system))"
    by (simp add: chain_system_def)
  have "layering (complete_graph (executionGraph chain_system)) = Inr [[A], [B], [C]]"
    by (simp add: chain_system_def complete_graph_def layering.simps peel_def remaining_def)
  from layering_acyclic [OF this distinct_complete_graph [OF d]]
  have a: "acyclic (edges (executionGraph chain_system))"
    by (simp add: edges_complete_graph)
  have ab: "(A, B) \<in> edges (executionGraph chain_system)"
    and ne: "executionGraph chain_system \<noteq> []"
    by (simp_all add: chain_system_def edges_def)
  from consideration_queue_layers [OF a d, of None None] chain_init ab ne a d
  show ?thesis by fastforce
qed

text \<open>
  C7: if the dependency graph supplied at construction contains a cycle, the
  construction ends with the graph-is-not-acyclic error of the topological sort: no
  Scheduler and no consideration queue is produced, and the construction always returns.
\<close>

theorem cyclic_graph_fails:
  assumes "\<not> acyclic (edges (executionGraph sys))"
    and "distinct (map fst (executionGraph sys))"
  shows "init_consideration_queue_from_system sys = Inl NotAcyclicError \<and>
         Scheduler_init (Some sys) nodes_arg ord = Inl NotAcyclicError"
  using toposort_cyclic [OF assms]
  by (simp add: Scheduler_init_def init_consideration_queue_from_system_def)

theorem cyclic_graph_fails_witness:
  "\<not> acyclic (edges (executionGraph cyclic_system)) \<and>
   distinct (map fst (executionGraph cyclic_system)) \<and>
   Scheduler_init (Some cyclic_system) None None = (Inl NotAcyclicError :: error + node scheduler)"
proof -
  have d: "distinct (map fst (executionGraph cyclic_system))"
    by (simp add: cyclic_system_def)
  have "(A, B) \<in> edges (executionGraph cyclic_system)"
    "(B, A) \<in> edges (executionGraph cyclic_system)"
    by (simp_all add: cyclic_system_def edges_def)
  then have "(A, A) \<in> (edges (executionGraph cyclic_system))\<^sup>+"
    by (meson trancl.intros)
  then have a: "\<not> acyclic (edges (executionGraph cyclic_system))"
    by (auto simp: acyclic_def)
  from cyclic_graph_fails [OF a d, of None None] a d show ?thesis by simp
qed


end
